theory Spec2Isabelle
  imports Complex_Main "HOL-Library.AList"
begin

section \<open>Python values shared by both scripts\<close>

text \<open>
  The two scripts under \<^verbatim>\<open>bin/align\<close> are Python 2 programs on Biopython
  alignments. An alignment is the list of its records; a record carries the identifier,
  the name, the description and the sequence text. Exceptions are values of
  \<open>py_error\<close>, and a function that can raise returns \<open>py_error + 'a\<close>.
\<close>

datatype py_error =
    UnboundLocalError
  | IndexError
  | ValueError
  | KeyError
  | AssertionError
  | IntegrityError
  | EOFError
  | OperationalError string

record seq_record =
  rec_id :: string
  rec_name :: string
  rec_description :: string
  rec_seq :: string

type_synonym alignment = "seq_record list"

text \<open>\<^verbatim>\<open>str.lower()\<close> of a Python 2 byte string: the 26 ASCII capitals are mapped.\<close>

definition lower :: "char \<Rightarrow> char" where
  "lower c =
     (case map_of (zip ''ABCDEFGHIJKLMNOPQRSTUVWXYZ'' ''abcdefghijklmnopqrstuvwxyz'') c of
        Some l \<Rightarrow> l
      | None \<Rightarrow> c)"

text \<open>\<^verbatim>\<open>s[a:b]\<close> for indices \<open>0 \<le> a\<close>, \<open>0 \<le> b\<close>: empty when \<open>b \<le> a\<close>.\<close>

definition slice :: "'a list \<Rightarrow> nat \<Rightarrow> nat \<Rightarrow> 'a list" where
  "slice xs a b = take (b - a) (drop a xs)"

section \<open>get\_smilogram\_from\_alignments.py\<close>

subsection \<open>replace\_gaps\_at\_start\_and\_ends\<close>

text \<open>
  Both loops of the function have the same shape:
  \<^verbatim>\<open>
  for start, base in enumerate(seq):
      if base == '-':
          begin.append('?')
          continue
      else:
          break
  \<close>
  \<open>walk_gaps\<close> runs such a loop over the enumerated characters. It returns the list
  built so far, the loop variable as Python leaves it after the loop (\<open>None\<close> when the
  body never ran, so that the name is unbound) and whether the loop left by \<^verbatim>\<open>break\<close>.
\<close>

fun walk_gaps :: "(nat \<times> char) list \<Rightarrow> string \<Rightarrow> nat option \<Rightarrow> string \<times> nat option \<times> bool" where
  "walk_gaps [] acc var = (acc, var, False)"
| "walk_gaps ((i, base) # rest) acc var =
     (if base = CHR ''-'' then walk_gaps rest (acc @ ''?'') (Some i)
      else (acc, Some i, True))"

text \<open>
  The second loop runs over \<^verbatim>\<open>seq[::-1]\<close> and rebinds \<^verbatim>\<open>stop = len(seq) - stop\<close>
  only in its \<^verbatim>\<open>else: ... break\<close> branch. Reading \<^verbatim>\<open>start\<close> or \<^verbatim>\<open>stop\<close> in
  \<^verbatim>\<open>seq[start:stop]\<close> while it is unbound raises.
\<close>

definition replace_gaps_at_start_and_ends :: "string \<Rightarrow> py_error + string" where
  "replace_gaps_at_start_and_ends seq =
     (let (begin, start, broke1) = walk_gaps (enumerate 0 seq) [] None;
          (end, stop0, broke) = walk_gaps (enumerate 0 (rev seq)) [] None;
          stop = (if broke then map_option (\<lambda>s. length seq - s) stop0 else stop0)
      in (case start of
            None \<Rightarrow> Inl UnboundLocalError
          | Some a \<Rightarrow>
             (case stop of
                None \<Rightarrow> Inl UnboundLocalError
              | Some b \<Rightarrow> Inr (begin @ slice seq a b @ end))))"

subsection \<open>replace\_gaps\<close>

text \<open>
  Biopython's \<^verbatim>\<open>MultipleSeqAlignment\<close>: \<^verbatim>\<open>get_alignment_length()\<close> is the length of
  the first record (0 without records), and \<^verbatim>\<open>append\<close> raises \<^verbatim>\<open>ValueError\<close> when
  the alignment has records and the new one has another length.
\<close>

definition get_alignment_length :: "alignment \<Rightarrow> nat" where
  "get_alignment_length aln = (case aln of [] \<Rightarrow> 0 | r # _ \<Rightarrow> length (rec_seq r))"

definition msa_append :: "alignment \<Rightarrow> seq_record \<Rightarrow> py_error + alignment" where
  "msa_append aln r =
     (if aln \<noteq> [] \<and> length (rec_seq r) \<noteq> get_alignment_length aln then Inl ValueError
      else Inr (aln @ [r]))"

fun replace_gaps_loop :: "alignment \<Rightarrow> alignment \<Rightarrow> py_error + alignment" where
  "replace_gaps_loop [] new_aln = Inr new_aln"
| "replace_gaps_loop (taxon # rest) new_aln =
     (case replace_gaps_at_start_and_ends (rec_seq taxon) of
        Inl e \<Rightarrow> Inl e
      | Inr seq \<Rightarrow>
         (case msa_append new_aln (taxon\<lparr>rec_seq := seq\<rparr>) of
            Inl e \<Rightarrow> Inl e
          | Inr new_aln' \<Rightarrow> replace_gaps_loop rest new_aln'))"

definition replace_gaps :: "alignment \<Rightarrow> py_error + alignment" where
  "replace_gaps aln = replace_gaps_loop aln []"

subsection \<open>worker: the major allele of a column\<close>

text \<open>
  \<^verbatim>\<open>aln[:, idx]\<close> is the string of the characters at \<open>idx\<close>, one per record. The
  worker reads it for \<open>idx\<close> below the alignment length of an alignment built by
  \<^verbatim>\<open>append\<close>, whose records all have that length.
\<close>

definition column :: "alignment \<Rightarrow> nat \<Rightarrow> string" where
  "column aln idx = map (\<lambda>r. rec_seq r ! idx) aln"

text \<open>\<^verbatim>\<open>re.sub('N|n|\?', "", col)\<close>\<close>

definition strip_missing :: "string \<Rightarrow> string" where
  "strip_missing col = filter (\<lambda>c. c \<notin> set ''Nn?'') col"

text \<open>
  \<^verbatim>\<open>collections.Counter\<close> as the list of its items, one per distinct element. Python 2
  iterates a dictionary in hash order; the model fixes one order, and no theorem below
  depends on which. \<^verbatim>\<open>most_common()\<close> sorts the items by decreasing count with a
  stable sort, and a missing key counts 0.
\<close>

definition Counter :: "'a list \<Rightarrow> ('a \<times> nat) list" where
  "Counter xs = map (\<lambda>x. (x, count_list xs x)) (remdups xs)"

definition counter_get :: "('a \<times> nat) list \<Rightarrow> 'a \<Rightarrow> nat" where
  "counter_get cnt k = (case map_of cnt k of None \<Rightarrow> 0 | Some n \<Rightarrow> n)"

definition most_common :: "('a \<times> nat) list \<Rightarrow> ('a \<times> nat) list" where
  "most_common cnt = sort_key (\<lambda>item. - int (snd item)) cnt"

text \<open>\<^verbatim>\<open>random.choice\<close> with the random number injected: IndexError on an empty list.\<close>

definition choice :: "nat \<Rightarrow> 'a list \<Rightarrow> py_error + 'a" where
  "choice r xs = (if xs = [] then Inl IndexError else Inr (xs ! (r mod length xs)))"

text \<open>
  \<^verbatim>\<open>
  for base, c in count.most_common():
      base = base.lower()
      if c == max(count_of_count) and base in ['a', 'c', 't', 'g', 'r', 'y', 's', 'w', 'k', 'm', 'b', 'd', 'h', 'v']:
          common_bases.append(base)
  \<close>
\<close>

definition iupac :: string where
  "iupac = ''actgryswkmbdhv''"

fun common_bases_loop :: "(char \<times> nat) list \<Rightarrow> nat \<Rightarrow> string \<Rightarrow> string" where
  "common_bases_loop [] mx common_bases = common_bases"
| "common_bases_loop ((base, c) # rest) mx common_bases =
     (let base = lower base in
      if c = mx \<and> base \<in> set iupac then common_bases_loop rest mx (common_bases @ [base])
      else common_bases_loop rest mx common_bases)"

text \<open>
  The branch of the worker that binds \<^verbatim>\<open>major\<close>. The variable lives across columns:
  \<open>None\<close> is the unbound name before the first assignment, and a column without
  considered bases leaves it as it was (\<^verbatim>\<open>pass\<close>). \<^verbatim>\<open>max(count_of_count)\<close> is the
  largest key of a Counter that is not empty in that branch.
\<close>

definition pick_major :: "nat \<Rightarrow> string \<Rightarrow> char option \<Rightarrow> py_error + char option" where
  "pick_major r bases major =
     (if length bases = 0 then Inr major
      else if length (remdups bases) = 1 then Inr (Some (lower (bases ! 0)))
      else
        let count = Counter bases;
            count_of_count = Counter (map snd count);
            mx = Max (set (map fst count_of_count))
        in if counter_get count_of_count mx = 1
           then Inr (Some (fst (most_common count ! 0)))
           else (case choice r (common_bases_loop (most_common count) mx []) of
                   Inl e \<Rightarrow> Inl e
                 | Inr b \<Rightarrow> Inr (Some b)))"

subsection \<open>worker: classifying the bases of a column\<close>

text \<open>
  The keys of a taxon's dictionary: \<^verbatim>\<open>'insertion'\<close>, \<^verbatim>\<open>'deletion'\<close>,
  \<^verbatim>\<open>'substitution'\<close>, \<^verbatim>\<open>'majallele'\<close> and \<^verbatim>\<open>None\<close> (missing data). Each holds the
  list of the columns classified so.
\<close>

datatype kind = Insertion | Deletion | Substitution | Majallele | NoneKey

record events =
  insertion :: "nat list"
  deletion :: "nat list"
  substitution :: "nat list"
  majallele :: "nat list"
  none_key :: "nat list"

definition empty_events :: events where
  "empty_events = \<lparr>insertion = [], deletion = [], substitution = [], majallele = [], none_key = []\<rparr>"

fun get_kind :: "events \<Rightarrow> kind \<Rightarrow> nat list" where
  "get_kind ev Insertion = insertion ev"
| "get_kind ev Deletion = deletion ev"
| "get_kind ev Substitution = substitution ev"
| "get_kind ev Majallele = majallele ev"
| "get_kind ev NoneKey = none_key ev"

fun append_kind :: "events \<Rightarrow> kind \<Rightarrow> nat \<Rightarrow> events" where
  "append_kind ev Insertion idx = ev\<lparr>insertion := insertion ev @ [idx]\<rparr>"
| "append_kind ev Deletion idx = ev\<lparr>deletion := deletion ev @ [idx]\<rparr>"
| "append_kind ev Substitution idx = ev\<lparr>substitution := substitution ev @ [idx]\<rparr>"
| "append_kind ev Majallele idx = ev\<lparr>majallele := majallele ev @ [idx]\<rparr>"
| "append_kind ev NoneKey idx = ev\<lparr>none_key := none_key ev @ [idx]\<rparr>"

type_synonym results = "(string \<times> events) list"

text \<open>
  The \<^verbatim>\<open>if\<close>/\<^verbatim>\<open>elif\<close> chain on the lower-cased base. It has no \<^verbatim>\<open>else\<close>: the
  result is \<open>None\<close> when no branch is taken. \<^verbatim>\<open>major\<close> is read only after the test
  for missing data has failed, and reading it unbound raises.
\<close>

definition classify :: "char \<Rightarrow> char option \<Rightarrow> py_error + kind option" where
  "classify base major =
     (if base \<in> set ''Nn?'' then Inr (Some NoneKey)
      else case major of
        None \<Rightarrow> Inl UnboundLocalError
      | Some m \<Rightarrow>
         (if base = m then Inr (Some Majallele)
          else if m = CHR ''-'' \<and> base \<noteq> CHR ''-'' then Inr (Some Insertion)
          else if base = CHR ''-'' \<and> m \<noteq> CHR ''-'' then Inr (Some Deletion)
          else if base \<noteq> CHR ''-'' \<and> m \<noteq> CHR ''-'' then Inr (Some Substitution)
          else Inr None))"

text \<open>\<^verbatim>\<open>results[name][typ].append(idx)\<close>: KeyError when the taxon has no entry.\<close>

definition append_event :: "results \<Rightarrow> string \<Rightarrow> kind \<Rightarrow> nat \<Rightarrow> py_error + results" where
  "append_event results name typ idx =
     (case map_of results name of
        None \<Rightarrow> Inl KeyError
      | Some ev \<Rightarrow> Inr (AList.update name (append_kind ev typ idx) results))"

text \<open>\<^verbatim>\<open>for pos, base in enumerate(col)\<close>, with \<^verbatim>\<open>name_map\<close> the list of the identifiers.\<close>

fun classify_loop ::
  "nat \<Rightarrow> char option \<Rightarrow> string list \<Rightarrow> (nat \<times> char) list \<Rightarrow> results \<Rightarrow> py_error + results" where
  "classify_loop idx major name_map [] results = Inr results"
| "classify_loop idx major name_map ((pos, base) # rest) results =
     (case classify (lower base) major of
        Inl e \<Rightarrow> Inl e
      | Inr None \<Rightarrow> classify_loop idx major name_map rest results
      | Inr (Some typ) \<Rightarrow>
         (if pos < length name_map then
            (case append_event results (name_map ! pos) typ idx of
               Inl e \<Rightarrow> Inl e
             | Inr results' \<Rightarrow> classify_loop idx major name_map rest results')
          else Inl KeyError))"

subsection \<open>worker\<close>

text \<open>
  \<^verbatim>\<open>
  for idx, taxon in enumerate(aln):
      name_map[idx] = taxon.id
      results[taxon.id] = {'insertion': [], 'deletion': [], 'substitution': [], 'majallele': [], None: []}
  \<close>
  The dictionary \<^verbatim>\<open>results\<close> is an association list with one entry per identifier.
\<close>

definition init_results :: "alignment \<Rightarrow> results" where
  "init_results aln = fold (\<lambda>taxon results. AList.update (rec_id taxon) empty_events results) aln []"

text \<open>
  The body of \<^verbatim>\<open>for idx in xrange(aln.get_alignment_length())\<close> on the state of the
  loop: \<^verbatim>\<open>results\<close>, \<^verbatim>\<open>base_count\<close> and the variable \<^verbatim>\<open>major\<close>. The random
  source gives one number per column.
\<close>

type_synonym worker_state = "results \<times> (nat \<times> nat) list \<times> char option"

fun column_step ::
  "(nat \<Rightarrow> nat) \<Rightarrow> alignment \<Rightarrow> string list \<Rightarrow> nat \<Rightarrow> worker_state \<Rightarrow> py_error + worker_state" where
  "column_step rnd aln name_map idx (results, base_count, major) =
     (let col = column aln idx;
          bases = strip_missing col;
          base_count' = AList.update idx (length bases) base_count
      in (case pick_major (rnd idx) bases major of
            Inl e \<Rightarrow> Inl e
          | Inr major' \<Rightarrow>
             (case classify_loop idx major' name_map (enumerate 0 col) results of
                Inl e \<Rightarrow> Inl e
              | Inr results' \<Rightarrow> Inr (results', base_count', major'))))"

fun column_loop ::
  "(nat \<Rightarrow> nat) \<Rightarrow> alignment \<Rightarrow> string list \<Rightarrow> nat list \<Rightarrow> worker_state \<Rightarrow> py_error + worker_state" where
  "column_loop rnd aln name_map [] st = Inr st"
| "column_loop rnd aln name_map (idx # idxs) st =
     (case column_step rnd aln name_map idx st of
        Inl e \<Rightarrow> Inl e
      | Inr st' \<Rightarrow> column_loop rnd aln name_map idxs st')"

text \<open>
  The worker on an alignment already read from its file, with the locus name taken from
  the file name. It returns \<^verbatim>\<open>(locus, results, aln.get_alignment_length(), base_count)\<close>.
\<close>

type_synonym worker_result = "string \<times> results \<times> nat \<times> (nat \<times> nat) list"

definition worker :: "(nat \<Rightarrow> nat) \<Rightarrow> string \<Rightarrow> alignment \<Rightarrow> py_error + worker_result" where
  "worker rnd locus aln0 =
     (let name_map = map rec_id aln0;
          results = init_results aln0
      in case replace_gaps aln0 of
           Inl e \<Rightarrow> Inl e
         | Inr aln \<Rightarrow>
            (case column_loop rnd aln name_map [0..<get_alignment_length aln] (results, [], None) of
               Inl e \<Rightarrow> Inl e
             | Inr (results', base_count, major) \<Rightarrow>
                 Inr (locus, results', get_alignment_length aln, base_count)))"

subsection \<open>main: filling the tables\<close>

record by_taxon_row =
  bt_taxon :: string
  bt_locus :: string
  bt_position :: nat
  bt_position_from_center :: int
  bt_type :: "string option"

record by_locus_row =
  bl_locus :: string
  bl_majallele :: nat
  bl_substitutions :: nat
  bl_deletions :: nat
  bl_insertions :: nat
  bl_missing :: nat
  bl_bases :: nat
  bl_position :: nat
  bl_position_from_center :: int
  bl_type :: string

record by_locus_missing_row =
  bm_locus :: string
  bm_present :: nat
  bm_absent :: int
  bm_position :: nat
  bm_position_from_center :: int
  bm_type :: string

record database =
  loci :: "(string \<times> nat) list"
  by_taxon :: "by_taxon_row list"
  by_locus :: "by_locus_row list"
  by_locus_missing :: "by_locus_missing_row list"

definition empty_database :: database where
  "empty_database = \<lparr>loci = [], by_taxon = [], by_locus = [], by_locus_missing = []\<rparr>"

text \<open>\<^verbatim>\<open>center = length / 2\<close> on Python 2 integers: the floor of the quotient.\<close>

definition center :: "nat \<Rightarrow> int" where
  "center len = int len div 2"

fun kind_key :: "kind \<Rightarrow> string option" where
  "kind_key Insertion = Some ''insertion''"
| "kind_key Deletion = Some ''deletion''"
| "kind_key Substitution = Some ''substitution''"
| "kind_key Majallele = Some ''majallele''"
| "kind_key NoneKey = None"

text \<open>
  The rows of \<open>by_taxon\<close> for one locus: one per taxon, kind and recorded position
  (\<^verbatim>\<open>iteritems()\<close> of both dictionaries, in the order the model lists them).
\<close>

definition by_taxon_rows :: "worker_result \<Rightarrow> by_taxon_row list" where
  "by_taxon_rows res =
     (case res of (locus, result, len, bases) \<Rightarrow>
      concat (map (\<lambda>(taxon_name, values).
        concat (map (\<lambda>typ.
          map (\<lambda>pos. \<lparr>bt_taxon = taxon_name, bt_locus = locus, bt_position = pos,
                       bt_position_from_center = int pos - center len,
                       bt_type = kind_key typ\<rparr>)
              (get_kind values typ))
          [Insertion, Deletion, Substitution, Majallele, NoneKey]))
        result))"

text \<open>
  \<^verbatim>\<open>maj.extend(v['majallele'])\<close> over all taxa and \<^verbatim>\<open>Counter(maj)[pos]\<close>: the number
  of times a position was recorded under a kind, over all taxa.
\<close>

definition kind_count :: "results \<Rightarrow> kind \<Rightarrow> nat \<Rightarrow> nat" where
  "kind_count result typ pos = count_list (concat (map (\<lambda>(k, v). get_kind v typ) result)) pos"

text \<open>
  \<^verbatim>\<open>for pos in sorted(bases.keys())\<close> with \<^verbatim>\<open>bases[pos]\<close>: the items of
  \<^verbatim>\<open>base_count\<close> by increasing position.
\<close>

definition by_locus_rows :: "worker_result \<Rightarrow> by_locus_row list" where
  "by_locus_rows res =
     (case res of (locus, result, len, bases) \<Rightarrow>
      map (\<lambda>(pos, n).
        \<lparr>bl_locus = locus,
         bl_majallele = kind_count result Majallele pos,
         bl_substitutions = kind_count result Substitution pos,
         bl_deletions = kind_count result Deletion pos,
         bl_insertions = kind_count result Insertion pos,
         bl_missing = kind_count result NoneKey pos,
         bl_bases = n,
         bl_position = pos,
         bl_position_from_center = int pos - center len,
         bl_type = ''substitutions''\<rparr>)
        (sort_key fst bases))"

definition by_locus_missing_rows :: "worker_result \<Rightarrow> by_locus_missing_row list" where
  "by_locus_missing_rows res =
     (case res of (locus, result, len, bases) \<Rightarrow>
      map (\<lambda>(pos, n).
        \<lparr>bm_locus = locus,
         bm_present = n,
         bm_absent = int (length result) - int n,
         bm_position = pos,
         bm_position_from_center = int pos - center len,
         bm_type = ''missing''\<rparr>)
        (sort_key fst bases))"

text \<open>
  One round of \<^verbatim>\<open>for locus, result, length, bases in results\<close>. \<open>locus\<close> is the
  primary key of \<open>loci\<close>, so a second file with the same base name raises.
\<close>

definition ingest :: "database \<Rightarrow> worker_result \<Rightarrow> py_error + database" where
  "ingest db res =
     (case res of (locus, result, len, bases) \<Rightarrow>
      if locus \<in> fst ` set (loci db) then Inl IntegrityError
      else Inr (db\<lparr>loci := loci db @ [(locus, len)],
                   by_taxon := by_taxon db @ by_taxon_rows res,
                   by_locus := by_locus db @ by_locus_rows res,
                   by_locus_missing := by_locus_missing db @ by_locus_missing_rows res\<rparr>))"

fun ingest_all :: "database \<Rightarrow> worker_result list \<Rightarrow> py_error + database" where
  "ingest_all db [] = Inr db"
| "ingest_all db (res # rest) =
     (case ingest db res of Inl e \<Rightarrow> Inl e | Inr db' \<Rightarrow> ingest_all db' rest)"

text \<open>
  \<^verbatim>\<open>results = map(worker, work)\<close> over the alignments read from the files, each with
  its locus name, and then the loop that fills the tables. An exception in a worker or
  in an insertion ends the run. The random source gives each locus its numbers.
\<close>

fun map_worker ::
  "(string \<Rightarrow> nat \<Rightarrow> nat) \<Rightarrow> (string \<times> alignment) list \<Rightarrow> py_error + worker_result list" where
  "map_worker rnd [] = Inr []"
| "map_worker rnd ((locus, aln) # work) =
     (case worker (rnd locus) locus aln of
        Inl e \<Rightarrow> Inl e
      | Inr res \<Rightarrow>
         (case map_worker rnd work of
            Inl e \<Rightarrow> Inl e
          | Inr results \<Rightarrow> Inr (res # results)))"

definition main_tables ::
  "(string \<Rightarrow> nat \<Rightarrow> nat) \<Rightarrow> (string \<times> alignment) list \<Rightarrow> py_error + database" where
  "main_tables rnd work =
     (case map_worker rnd work of
        Inl e \<Rightarrow> Inl e
      | Inr results \<Rightarrow> ingest_all empty_database results)"

subsection \<open>main: the two smilogram queries\<close>

text \<open>
  \<^verbatim>\<open>
  CREATE TEMP TABLE ssb AS
  SELECT sum(substitutions) AS ss, sum(bases), sum(substitutions)/sum(bases), position_from_center
  FROM by_locus GROUP BY position_from_center
  SELECT * FROM ssb WHERE ss != 0
  \<close>
  and the same on \<open>by_locus_missing\<close> with \<open>present\<close> and \<open>absent\<close>. The aggregation
  scans the rows and keeps, for each value of the grouping column, the running sums of
  two columns; the groups come out by increasing key. The summed columns are declared
  \<^verbatim>\<open>real\<close>, so the quotient is a division of reals, and SQLite gives NULL (\<open>None\<close>)
  when the divisor is zero. The model keeps the exact quotient.
\<close>

definition accumulate :: "(int \<times> int \<times> int) list \<Rightarrow> int \<times> int \<times> int \<Rightarrow> (int \<times> int \<times> int) list" where
  "accumulate groups row =
     (case row of (k, a, b) \<Rightarrow>
        (case map_of groups k of
           None \<Rightarrow> groups @ [(k, a, b)]
         | Some (sa, sb) \<Rightarrow> AList.update k (sa + a, sb + b) groups))"

definition group_by_sum :: "(int \<times> int \<times> int) list \<Rightarrow> (int \<times> int \<times> int) list" where
  "group_by_sum rows = sort_key fst (foldl accumulate [] rows)"

definition sql_div :: "int \<Rightarrow> int \<Rightarrow> rat option" where
  "sql_div a b = (if b = 0 then None else Some (of_int a / of_int b))"

text \<open>The rows written to the smilogram file: \<open>(ss, sum(bases), quotient, distance)\<close>.\<close>

definition ssb :: "by_locus_row list \<Rightarrow> (int \<times> int \<times> rat option \<times> int) list" where
  "ssb rows =
     map (\<lambda>(d, ss, sb). (ss, sb, sql_div ss sb, d))
       (group_by_sum (map (\<lambda>r. (bl_position_from_center r, int (bl_substitutions r), int (bl_bases r))) rows))"

definition smilogram_rows :: "by_locus_row list \<Rightarrow> (int \<times> int \<times> rat option \<times> int) list" where
  "smilogram_rows rows = filter (\<lambda>(ss, sb, freq, d). ss \<noteq> 0) (ssb rows)"

text \<open>The rows written to the missing-data file: \<open>(pres, sum(absent), quotient, distance)\<close>.\<close>

definition ssc :: "by_locus_missing_row list \<Rightarrow> (int \<times> int \<times> rat option \<times> int) list" where
  "ssc rows =
     map (\<lambda>(d, pres, ab). (pres, ab, sql_div ab (ab + pres), d))
       (group_by_sum (map (\<lambda>r. (bm_position_from_center r, int (bm_present r), bm_absent r)) rows))"

definition missing_rows :: "by_locus_missing_row list \<Rightarrow> (int \<times> int \<times> rat option \<times> int) list" where
  "missing_rows rows = filter (\<lambda>(pres, ab, freq, d). pres \<noteq> 0) (ssc rows)"

subsection \<open>create\_differences\_database\<close>

text \<open>
  A database file is the list of its tables, each with its rows; the file system maps a
  path to the file there. \<^verbatim>\<open>sqlite3.connect\<close> opens the file or starts an empty one,
  and \<^verbatim>\<open>CREATE TABLE\<close> fails with the message \<^verbatim>\<open>table X already exists\<close>. The four
  statements run in order inside the \<^verbatim>\<open>try\<close>; the tables created before a failure
  stay. \<open>create_tables\<close> returns the message of the failure, if any, and the file.
\<close>

type_synonym 'r sqlite_file = "(string \<times> 'r list) list"

type_synonym 'r file_system = "string \<Rightarrow> 'r sqlite_file option"

definition table_names :: "string list" where
  "table_names = [''loci'', ''by_taxon'', ''by_locus'', ''by_locus_missing'']"

fun create_tables :: "string list \<Rightarrow> 'r sqlite_file \<Rightarrow> string option \<times> 'r sqlite_file" where
  "create_tables [] file = (None, file)"
| "create_tables (name # names) file =
     (if name \<in> fst ` set file then (Some (''table '' @ name @ '' already exists''), file)
      else create_tables names (file @ [(name, [])]))"

text \<open>
  The test \<^verbatim>\<open>if answer == "Y" or "YES":\<close> is Python's \<^verbatim>\<open>or\<close> of a Boolean and a
  string: the value of \<^verbatim>\<open>a or b\<close> is \<open>a\<close> when \<open>a\<close> is true and \<open>b\<close> otherwise, and
  a string is true when it is not empty.
\<close>

datatype py_value = PyBool bool | PyStr string

fun truthy :: "py_value \<Rightarrow> bool" where
  "truthy (PyBool b) = b"
| "truthy (PyStr s) = (s \<noteq> [])"

definition py_or :: "py_value \<Rightarrow> py_value \<Rightarrow> py_value" where
  "py_or a b = (if truthy a then a else b)"

text \<open>
  The function on the file system and on the answers still to be typed at
  \<^verbatim>\<open>raw_input\<close> (none left: EOFError). It returns the outcome, the file system and the
  answers left. In the \<^verbatim>\<open>else\<close> branch \<^verbatim>\<open>pdb.set_trace()\<close> stops in the debugger and the
  function then returns the connection to the file as it is.
\<close>

fun create_differences_database ::
  "'r file_system \<Rightarrow> string list \<Rightarrow> string \<Rightarrow> (py_error + unit) \<times> 'r file_system \<times> string list" where
  "create_differences_database fs answers db =
     (case create_tables table_names (case fs db of None \<Rightarrow> [] | Some file \<Rightarrow> file) of
        (None, file) \<Rightarrow> (Inr (), fs(db \<mapsto> file), answers)
      | (Some message, file) \<Rightarrow>
          (if message = ''table loci already exists'' then
             (case answers of
                [] \<Rightarrow> (Inl EOFError, fs(db \<mapsto> file), [])
              | answer # rest \<Rightarrow>
                  (if truthy (py_or (PyBool (answer = ''Y'')) (PyStr ''YES''))
                   then create_differences_database (fs(db := None)) rest db
                   else (Inr (), fs(db \<mapsto> file), rest)))
           else (Inl (OperationalError message), fs(db \<mapsto> file), answers)))"

section \<open>add\_missing\_data\_designators.py\<close>

subsection \<open>String and list operations\<close>


fun split :: "char \<Rightarrow> string \<Rightarrow> string list" where
  "split sep [] = [[]]"
| "split sep (c # cs) =
     (if c = sep then [] # split sep cs
      else (case split sep cs of [] \<Rightarrow> [[c]] | w # ws \<Rightarrow> (c # w) # ws))"




subsection \<open>add\_gaps\_to\_align\<close>









subsection \<open>add\_designators\<close>




section \<open>Notions used in the statements\<close>

text \<open>The number of gap characters before the first character that is not a gap.\<close>

definition lead_gaps :: "string \<Rightarrow> nat" where
  "lead_gaps seq = length (takeWhile (\<lambda>c. c = CHR ''-'') seq)"

text \<open>A record whose identifier, name and description agree, as a FASTA file gives it.\<close>

definition taxon :: "string \<Rightarrow> string \<Rightarrow> seq_record" where
  "taxon name seq = \<lparr>rec_id = name, rec_name = name, rec_description = name, rec_seq = seq\<rparr>"

text \<open>The alignment of the end-to-end example: three taxa, four columns.\<close>

definition example_alignment :: alignment where
  "example_alignment = [taxon ''t1'' ''ACGT'', taxon ''t2'' ''ACGA'', taxon ''t3'' ''AC-T'']"

text \<open>What a row of \<open>by_locus\<close> says about its position.\<close>

definition locus_counts :: "by_locus_row \<Rightarrow> nat \<times> nat \<times> nat \<times> nat \<times> nat \<times> nat \<times> nat" where
  "locus_counts r =
     (bl_position r, bl_majallele r, bl_substitutions r, bl_deletions r, bl_insertions r,
      bl_missing r, bl_bases r)"

text \<open>A second alignment: an end gap in \<open>t2\<close> and a column of missing data only.\<close>

definition end_gap_alignment :: alignment where
  "end_gap_alignment = [taxon ''t1'' ''AnG'', taxon ''t2'' ''AN-'', taxon ''t3'' ''C?T'']"

text \<open>
  The number of bases of a column that the chain of the worker puts under a kind, for a
  given value of \<^verbatim>\<open>major\<close>.
\<close>

definition classified :: "char option \<Rightarrow> string \<Rightarrow> kind \<Rightarrow> nat" where
  "classified major col k = length (filter (\<lambda>base. classify (lower base) major = Inr (Some k)) col)"

text \<open>A taxon has a column in its list for a kind.\<close>

definition recorded :: "results \<Rightarrow> string \<Rightarrow> kind \<Rightarrow> nat \<Rightarrow> bool" where
  "recorded results name k idx =
     (case map_of results name of None \<Rightarrow> False | Some ev \<Rightarrow> idx \<in> set (get_kind ev k))"

definition capitals :: string where
  "capitals = ''ABCDEFGHIJKLMNOPQRSTUVWXYZ''"

text \<open>
  The alphabet of the specification: the four nucleotides and the IUPAC ambiguity codes
  in either case, the gap, and the missing-data symbols.
\<close>

definition nucleotide_codes :: string where
  "nucleotide_codes = ''ACGTRYSWKMBDHVacgtryswkmbdhv''"

definition spec_alphabet :: "char \<Rightarrow> bool" where
  "spec_alphabet c = (c \<in> set nucleotide_codes \<or> c = CHR ''-'' \<or> c \<in> set ''Nn?'')"

text \<open>
  The considered bases of a column reach the random choice: they are not empty, they are
  not all one character, and the largest count is not reached by a single base.
\<close>

definition max_count :: "string \<Rightarrow> nat" where
  "max_count bases = Max (set (map fst (Counter (map snd (Counter bases)))))"

definition reaches_tie_break :: "string \<Rightarrow> bool" where
  "reaches_tie_break bases =
     (length bases \<noteq> 0 \<and> length (remdups bases) \<noteq> 1
      \<and> counter_get (Counter (map snd (Counter bases))) (max_count bases) \<noteq> 1)"












section \<open>The end-gap normalizer\<close>

lemma takeWhile_lt: "\<exists>c\<in>set ys. \<not> P c \<Longrightarrow> length (takeWhile P ys) < length ys"
  by (induction ys) auto

lemma walk_gaps_break_eq:
  "\<exists>c\<in>set xs. c \<noteq> CHR ''-'' \<Longrightarrow>
   walk_gaps (enumerate n xs) acc var =
     (acc @ replicate (length (takeWhile (\<lambda>c. c = CHR ''-'') xs)) CHR ''?'',
      Some (n + length (takeWhile (\<lambda>c. c = CHR ''-'') xs)), True)"
proof (induction xs arbitrary: n acc var)
  case Nil
  then show ?case by simp
next
  case (Cons x xs)
  show ?case
  proof (cases "x = CHR ''-''")
    case True
    with Cons.prems have "\<exists>c\<in>set xs. c \<noteq> CHR ''-''" by simp
    from Cons.IH[OF this] True show ?thesis by (simp add: replicate_app_Cons_same)
  next
    case False
    then show ?thesis by simp
  qed
qed

lemma walk_gaps_all_eq:
  "\<forall>c\<in>set xs. c = CHR ''-'' \<Longrightarrow>
   walk_gaps (enumerate n xs) acc var =
     (acc @ replicate (length xs) CHR ''?'',
      (if xs = [] then var else Some (n + length xs - 1)), False)"
proof (induction xs arbitrary: n acc var)
  case Nil
  then show ?case by simp
next
  case (Cons x xs)
  then have x: "x = CHR ''-''" and xs: "\<forall>c\<in>set xs. c = CHR ''-''" by simp_all
  show ?case using Cons.IH[OF xs, of "Suc n" "acc @ ''?''" "Some n"] x
    by (simp add: replicate_app_Cons_same)
qed

lemma replace_gaps_at_start_and_ends_covered:
  assumes "\<exists>c\<in>set seq. c \<noteq> CHR ''-''"
  shows "replace_gaps_at_start_and_ends seq =
     Inr (replicate (lead_gaps seq) CHR ''?''
          @ slice seq (lead_gaps seq) (length seq - lead_gaps (rev seq))
          @ replicate (lead_gaps (rev seq)) CHR ''?'')"
proof -
  have r: "\<exists>c\<in>set (rev seq). c \<noteq> CHR ''-''" using assms by simp
  show ?thesis
    unfolding replace_gaps_at_start_and_ends_def lead_gaps_def
    by (simp add: walk_gaps_break_eq[OF assms] walk_gaps_break_eq[OF r])
qed

lemma lead_gaps_sum:
  assumes "\<exists>c\<in>set xs. c \<noteq> CHR ''-''"
  shows "lead_gaps xs + lead_gaps (rev xs) < length xs"
proof -
  let ?P = "\<lambda>c. c = CHR ''-''"
  have d: "dropWhile ?P xs \<noteq> []" using assms by (simp add: dropWhile_eq_Nil_conv) 
  have "takeWhile ?P (rev xs) = takeWhile ?P (rev (dropWhile ?P xs) @ rev (takeWhile ?P xs))"
    by (metis rev_append takeWhile_dropWhile_id)
  also have "\<dots> = takeWhile ?P (rev (dropWhile ?P xs))"
  proof (rule takeWhile_append1[where x = "hd (dropWhile ?P xs)"])
    show "hd (dropWhile ?P xs) \<in> set (rev (dropWhile ?P xs))" using d by simp
    show "\<not> ?P (hd (dropWhile ?P xs))" using d hd_dropWhile by blast
  qed
  finally have e: "takeWhile ?P (rev xs) = takeWhile ?P (rev (dropWhile ?P xs))" .
  have "\<exists>c\<in>set (rev (dropWhile ?P xs)). \<not> ?P c"
    using d hd_dropWhile[of ?P xs] by (metis hd_in_set set_rev)
  then have "length (takeWhile ?P (rev (dropWhile ?P xs))) < length (rev (dropWhile ?P xs))"
    by (rule takeWhile_lt)
  then have "length (takeWhile ?P (rev xs)) < length (dropWhile ?P xs)" using e by simp
  moreover have "length xs = length (takeWhile ?P xs) + length (dropWhile ?P xs)"
    by (metis length_append takeWhile_dropWhile_id)
  ultimately show ?thesis unfolding lead_gaps_def by linarith
qed

lemma replace_gaps_at_start_and_ends_length:
  assumes "\<exists>c\<in>set seq. c \<noteq> CHR ''-''"
    and "replace_gaps_at_start_and_ends seq = Inr s"
  shows "length s = length seq"
  using assms(2) lead_gaps_sum[OF assms(1)]
  unfolding replace_gaps_at_start_and_ends_covered[OF assms(1)]
  by (auto simp: slice_def)

lemma replace_gaps_at_start_and_ends_nth:
  assumes "\<exists>c\<in>set seq. c \<noteq> CHR ''-''"
    and "replace_gaps_at_start_and_ends seq = Inr s" and "i < length seq"
  shows "s ! i = (if i < lead_gaps seq \<or> length seq - lead_gaps (rev seq) \<le> i then CHR ''?'' else seq ! i)"
  using assms(2,3) lead_gaps_sum[OF assms(1)]
  unfolding replace_gaps_at_start_and_ends_covered[OF assms(1)]
  by (auto simp: slice_def nth_append)

lemma replace_gaps_at_start_and_ends_no_end_gaps:
  assumes "seq \<noteq> []" "hd seq \<noteq> CHR ''-''" "last seq \<noteq> CHR ''-''"
  shows "replace_gaps_at_start_and_ends seq = Inr seq"
proof -
  have ex: "\<exists>c\<in>set seq. c \<noteq> CHR ''-''" using assms by (metis hd_in_set)
  have a: "lead_gaps seq = 0" using assms by (cases seq) (auto simp: lead_gaps_def)
  have b: "lead_gaps (rev seq) = 0" using assms by (cases "rev seq") (auto simp: lead_gaps_def last_rev hd_rev)
  show ?thesis unfolding replace_gaps_at_start_and_ends_covered[OF ex] a b by (simp add: slice_def)
qed


text \<open>
  C2. The claim is that every sequence, the empty one and the one made of gaps only
  included, comes back with its length unchanged and only its two end runs rewritten.
  The function does that for a sequence that holds a character other than the gap
  (\<open>replace_gaps_at_start_and_ends_length\<close>, \<open>replace_gaps_at_start_and_ends_nth\<close>).
  On a sequence of \<open>n + 1\<close> gaps neither loop reaches its \<^verbatim>\<open>break\<close>, \<^verbatim>\<open>stop\<close> keeps the
  index of the last character, the slice is empty, and both runs of question marks are
  written: the result has twice the length. On the empty sequence \<^verbatim>\<open>start\<close> is
  unbound and the function raises.
\<close>

theorem replace_gaps_at_start_and_ends_all_gaps:
  "replace_gaps_at_start_and_ends (replicate (Suc n) CHR ''-'') = Inr (replicate (2 * Suc n) CHR ''?'')
   \<and> replace_gaps_at_start_and_ends [] = Inl UnboundLocalError"
proof
  have a: "\<forall>c\<in>set (replicate (Suc n) CHR ''-''). c = CHR ''-''" by simp
  have b: "\<forall>c\<in>set (rev (replicate (Suc n) CHR ''-'')). c = CHR ''-''" by simp
  show "replace_gaps_at_start_and_ends (replicate (Suc n) CHR ''-'') = Inr (replicate (2 * Suc n) CHR ''?'')"
    unfolding replace_gaps_at_start_and_ends_def walk_gaps_all_eq[OF a] walk_gaps_all_eq[OF b]
    by (simp add: slice_def replicate_add[symmetric] del: replicate.simps replicate_Suc)
  show "replace_gaps_at_start_and_ends [] = Inl UnboundLocalError"
    by (simp add: replace_gaps_at_start_and_ends_def)
qed

section \<open>The end-to-end example\<close>

text \<open>
  C1. The example of the specification, run through the worker and the loop that fills
  \<open>by_locus\<close>. Each row is (position, majallele, substitutions, deletions, insertions,
  missing, bases). Columns 0 and 1 count three major alleles, and position 2 has one
  deletion and three bases, as claimed. At position 3 the claim expects one substitution.
  The branch for a single most frequent base binds \<^verbatim>\<open>major\<close> to the character as it
  is in the column, \<open>T\<close>, while every base is compared after \<^verbatim>\<open>lower()\<close>: no upper-case
  base equals it, and all three taxa are recorded as substitutions (two more at
  position 2).
\<close>

theorem example_alignment_by_locus:
  "map_sum id (\<lambda>db. map locus_counts (by_locus db))
     (main_tables (\<lambda>locus idx. 0) [(''uce-1'', example_alignment)])
   = Inr [(0, 3, 0, 0, 0, 0, 3), (1, 3, 0, 0, 0, 0, 3), (2, 0, 2, 1, 0, 0, 3), (3, 0, 3, 0, 0, 0, 3)]"
  by code_simp

text \<open>The same alignment in lower case gives the counts the example expects.\<close>

lemma example_alignment_lower_case:
  "map_sum id (\<lambda>db. map locus_counts (by_locus db))
     (main_tables (\<lambda>locus idx. 0)
        [(''uce-1'', map (\<lambda>r. r\<lparr>rec_seq := map lower (rec_seq r)\<rparr>) example_alignment)])
   = Inr [(0, 3, 0, 0, 0, 0, 3), (1, 3, 0, 0, 0, 0, 3), (2, 2, 0, 1, 0, 0, 3), (3, 2, 1, 0, 0, 0, 3)]"
  by code_simp

text \<open>Column 0 of the example: every taxon is recorded under the major allele.\<close>

lemma example_alignment_column_0:
  "map_sum id (\<lambda>db. map (\<lambda>r. (bt_taxon r, bt_type r)) (filter (\<lambda>r. bt_position r = 0) (by_taxon db)))
     (main_tables (\<lambda>locus idx. 0) [(''uce-1'', example_alignment)])
   = Inr [(''t1'', Some ''majallele''), (''t2'', Some ''majallele''), (''t3'', Some ''majallele'')]"
  by code_simp

section \<open>Distance from the center\<close>






section \<open>Creating the store\<close>

lemma create_tables_loci:
  "''loci'' \<in> fst ` set file \<Longrightarrow> create_tables table_names file = (Some ''table loci already exists'', file)"
  by (simp add: table_names_def)

lemma create_tables_fresh:
  "create_tables table_names ([] :: 'r sqlite_file) = (None, map (\<lambda>n. (n, [])) table_names)"
  by (simp add: table_names_def)

lemma overwrite_test_always_true: "truthy (py_or (PyBool (answer = ''Y'')) (PyStr ''YES''))"
  by (simp add: py_or_def)

lemma create_differences_database_any_answer:
  assumes "fs db = Some file" and "''loci'' \<in> fst ` set file"
  shows "create_differences_database fs (answer # rest) db
         = (Inr (), fs(db \<mapsto> map (\<lambda>n. (n, [])) table_names), rest)"
proof -
  have "create_differences_database fs (answer # rest) db
        = create_differences_database (fs(db := None)) rest db"
    by (subst create_differences_database.simps)
       (simp add: assms create_tables_loci overwrite_test_always_true del: create_differences_database.simps)
  also have "\<dots> = (Inr (), fs(db \<mapsto> map (\<lambda>n. (n, [])) table_names), rest)"
    by (subst create_differences_database.simps)
       (simp add: create_tables_fresh del: create_differences_database.simps)
  finally show ?thesis .
qed

text \<open>
  C3. The claim is that an existing store is deleted only when the user confirms, and
  left unchanged for every other answer. The test \<^verbatim>\<open>answer == "Y" or "YES"\<close> is true
  for every answer (\<open>overwrite_test_always_true\<close>), so an existing store is removed
  and created empty whatever is typed (\<open>create_differences_database_any_answer\<close>).
  Here the file holds the four tables with rows and the answer is \<open>n\<close>: the rows are
  gone.
\<close>

theorem create_differences_database_answer_n:
  "(case create_differences_database
           (Map.empty(''out.sqlite'' \<mapsto>
              [(''loci'', [1::nat]), (''by_taxon'', [2, 3]), (''by_locus'', [4]), (''by_locus_missing'', [5])]))
           [''n''] ''out.sqlite'' of
      (outcome, fs, answers) \<Rightarrow> (outcome, fs ''out.sqlite'', answers))
   = (Inr (), Some [(''loci'', []), (''by_taxon'', []), (''by_locus'', []), (''by_locus_missing'', [])], [])"
  by (simp add: table_names_def py_or_def)

section \<open>Counting the events of a column\<close>

lemma count_list_concat: "count_list (concat xss) p = sum_list (map (\<lambda>xs. count_list xs p) xss)"
  by (induction xss) simp_all

lemma kind_count_sum:
  "kind_count result k pos = sum_list (map (\<lambda>x. count_list (get_kind (snd x) k) pos) result)"
  by (simp add: kind_count_def count_list_concat comp_def case_prod_unfold)

lemma sum_list_update:
  fixes f :: "'k \<times> 'v \<Rightarrow> nat"
  shows "map_of al k = Some v \<Longrightarrow>
    sum_list (map f (AList.update k v' al)) + f (k, v) = sum_list (map f al) + f (k, v')"
  by (induction al) (auto split: if_splits)

lemma get_kind_append_kind:
  "get_kind (append_kind ev ty idx) k = (if k = ty then get_kind ev k @ [idx] else get_kind ev k)"
  by (cases ty; cases k) simp_all

lemma append_event_Inr:
  assumes "append_event results name ty idx = Inr results'"
  obtains ev where "map_of results name = Some ev"
    and "results' = AList.update name (append_kind ev ty idx) results"
  using assms by (auto simp: append_event_def split: option.splits)

lemma kind_count_append_event:
  assumes "append_event results name ty idx = Inr results'"
  shows "kind_count results' k p = kind_count results k p + (if k = ty \<and> p = idx then 1 else 0)"
proof -
  from assms obtain ev where ev: "map_of results name = Some ev"
    and r: "results' = AList.update name (append_kind ev ty idx) results"
    by (rule append_event_Inr)
  let ?f = "\<lambda>x. count_list (get_kind (snd x) k) p"
  have "sum_list (map ?f results') + ?f (name, ev)
        = sum_list (map ?f results) + ?f (name, append_kind ev ty idx)"
    unfolding r by (rule sum_list_update[OF ev])
  then have "kind_count results' k p + count_list (get_kind ev k) p
        = kind_count results k p + count_list (get_kind (append_kind ev ty idx) k) p"
    by (simp add: kind_count_sum)
  then show ?thesis
    by (simp add: get_kind_append_kind split: if_splits)
qed


lemma classify_exhaustive: "classify base major \<noteq> Inr None"
  by (auto simp: classify_def split: option.splits)

lemma classify_loop_Cons_Inr:
  assumes "classify_loop idx major name_map ((pos, base) # rest) results = Inr results'"
  obtains k results1 where "classify (lower base) major = Inr (Some k)"
    and "pos < length name_map"
    and "append_event results (name_map ! pos) k idx = Inr results1"
    and "classify_loop idx major name_map rest results1 = Inr results'"
proof (cases "classify (lower base) major")
  case (Inl err)
  with assms show ?thesis by simp
next
  case (Inr r)
  with classify_exhaustive[of "lower base" major] obtain k where k: "r = Some k" by (cases r) auto
  from assms Inr k show ?thesis
    by (auto split: if_splits sum.splits intro: that)
qed

lemma classify_loop_count:
  "classify_loop idx major name_map ecol results = Inr results' \<Longrightarrow>
   kind_count results' k p
   = kind_count results k p + (if p = idx then classified major (map snd ecol) k else 0)"
proof (induction ecol arbitrary: results)
  case Nil
  then show ?case by (simp add: classified_def)
next
  case (Cons e ecol)
  obtain pos base where e: "e = (pos, base)" by (cases e)
  from Cons.prems[unfolded e] obtain ty results1 where
    c: "classify (lower base) major = Inr (Some ty)"
    and a: "append_event results (name_map ! pos) ty idx = Inr results1"
    and l: "classify_loop idx major name_map ecol results1 = Inr results'"
    by (rule classify_loop_Cons_Inr)
  from Cons.IH[OF l] kind_count_append_event[OF a, of k p]
  show ?case using e c by (auto simp: classified_def)
qed


lemma classify_loop_total:
  "classify_loop idx major name_map ecol results = Inr results' \<Longrightarrow>
   base \<in> snd ` set ecol \<Longrightarrow> \<exists>k. classify (lower base) major = Inr (Some k)"
proof (induction ecol arbitrary: results)
  case Nil
  then show ?case by simp
next
  case (Cons e ecol)
  obtain pos b where e: "e = (pos, b)" by (cases e)
  from Cons.prems(1)[unfolded e] obtain ty results1 where
    c: "classify (lower b) major = Inr (Some ty)"
    and l: "classify_loop idx major name_map ecol results1 = Inr results'"
    by (rule classify_loop_Cons_Inr)
  from Cons.prems(2) e have "base = b \<or> base \<in> snd ` set ecol" by auto
  then show ?case using c Cons.IH[OF l] by blast
qed



lemma map_snd_enumerate: "map snd (enumerate n xs) = xs"
  by (simp add: enumerate_eq_zip)

lemma column_step_Inr:
  assumes "column_step rnd aln name_map idx (results, bc, major) = Inr (results', bc', major')"
  shows "pick_major (rnd idx) (strip_missing (column aln idx)) major = Inr major'"
    and "classify_loop idx major' name_map (enumerate 0 (column aln idx)) results = Inr results'"
    and "bc' = AList.update idx (length (strip_missing (column aln idx))) bc"
  using assms by (auto simp: Let_def split: sum.splits)

lemma column_loop_other:
  "column_loop rnd aln name_map idxs st = Inr st' \<Longrightarrow> p \<notin> set idxs \<Longrightarrow>
   kind_count (fst st') k p = kind_count (fst st) k p \<and> map_of (fst (snd st')) p = map_of (fst (snd st)) p"
proof (induction idxs arbitrary: st)
  case Nil
  then show ?case by simp
next
  case (Cons idx idxs)
  from Cons.prems(1) obtain st1 where s: "column_step rnd aln name_map idx st = Inr st1"
    and l: "column_loop rnd aln name_map idxs st1 = Inr st'"
    by (auto split: sum.splits)
  obtain results bc major where st: "st = (results, bc, major)" by (cases st)
  obtain results1 bc1 major1 where st1: "st1 = (results1, bc1, major1)" by (cases st1)
  note f = column_step_Inr[OF s[unfolded st st1]]
  from Cons.prems(2) have ne: "p \<noteq> idx" and nin: "p \<notin> set idxs" by auto
  have "kind_count results1 k p = kind_count results k p"
    using classify_loop_count[OF f(2), of k p] ne by simp
  moreover have "map_of bc1 p = map_of bc p"
    using ne by (simp add: f(3) update_conv')
  ultimately show ?case using Cons.IH[OF l nin] by (simp add: st st1)
qed

lemma column_loop_at:
  "column_loop rnd aln name_map idxs st = Inr st' \<Longrightarrow> distinct idxs \<Longrightarrow> p \<in> set idxs \<Longrightarrow>
   \<exists>prev m. pick_major (rnd p) (strip_missing (column aln p)) prev = Inr m
     \<and> (\<forall>base\<in>set (column aln p). \<exists>k. classify (lower base) m = Inr (Some k))
     \<and> (\<forall>k. kind_count (fst st') k p = kind_count (fst st) k p + classified m (column aln p) k)
     \<and> map_of (fst (snd st')) p = Some (length (strip_missing (column aln p)))"
proof (induction idxs arbitrary: st)
  case Nil
  then show ?case by simp
next
  case (Cons idx idxs)
  from Cons.prems(1) obtain st1 where s: "column_step rnd aln name_map idx st = Inr st1"
    and l: "column_loop rnd aln name_map idxs st1 = Inr st'"
    by (auto split: sum.splits)
  obtain results bc major where st: "st = (results, bc, major)" by (cases st)
  obtain results1 bc1 major1 where st1: "st1 = (results1, bc1, major1)" by (cases st1)
  note f = column_step_Inr[OF s[unfolded st st1]]
  from Cons.prems(2) have d: "distinct idxs" and nin: "idx \<notin> set idxs" by auto
  show ?case
  proof (cases "p = idx")
    case True
    have o: "\<forall>k. kind_count (fst st') k p = kind_count results1 k p"
      and ob: "map_of (fst (snd st')) p = map_of bc1 p"
      using column_loop_other[OF l, of p] nin True by (simp_all add: st1)
    have c: "\<forall>k. kind_count results1 k p = kind_count results k p + classified major1 (column aln p) k"
      using classify_loop_count[OF f(2)] True by (simp add: map_snd_enumerate)
    have t: "\<forall>base\<in>set (column aln p). \<exists>k. classify (lower base) major1 = Inr (Some k)"
      using classify_loop_total[OF f(2)] True by (simp add: map_snd_enumerate flip: set_map)
    have b: "map_of bc1 p = Some (length (strip_missing (column aln p)))"
      using True by (simp add: f(3) update_conv')
    show ?thesis
      using f(1) o ob c t b True by (auto simp: st)
  next
    case False
    with Cons.prems(3) have pin: "p \<in> set idxs" by simp
    have "\<forall>k. kind_count results1 k p = kind_count results k p"
      using classify_loop_count[OF f(2)] False by simp
    with Cons.IH[OF l d pin] show ?thesis by (simp add: st st1)
  qed
qed

lemma set_update_subset: "set (AList.update k v al) \<subseteq> insert (k, v) (set al)"
  by (induction al) auto

lemma init_results_empty:
  "(n, ev) \<in> set (init_results aln) \<Longrightarrow> ev = empty_events"
proof -
  have "\<forall>x\<in>set acc. snd x = empty_events \<Longrightarrow>
        \<forall>x\<in>set (fold (\<lambda>taxon results. AList.update (rec_id taxon) empty_events results) aln acc).
           snd x = empty_events" for acc
  proof (induction aln arbitrary: acc)
    case Nil
    then show ?case by simp
  next
    case (Cons t aln)
    have "\<forall>x\<in>set (AList.update (rec_id t) empty_events acc). snd x = empty_events"
      using Cons.prems set_update_subset[of "rec_id t" empty_events acc] by auto
    from Cons.IH[OF this] show ?case by simp
  qed
  from this[of "[]"] show "(n, ev) \<in> set (init_results aln) \<Longrightarrow> ev = empty_events"
    by (auto simp: init_results_def)
qed

lemma get_kind_empty_events: "get_kind empty_events k = []"
  by (cases k) (simp_all add: empty_events_def)

lemma kind_count_init_results: "kind_count (init_results aln) k p = 0"
proof -
  have "count_list (get_kind (snd x) k) p = 0" if "x \<in> set (init_results aln)" for x
  proof -
    from that have "(fst x, snd x) \<in> set (init_results aln)" by simp
    then have "snd x = empty_events" by (rule init_results_empty)
    then show ?thesis by (simp add: get_kind_empty_events)
  qed
  then show ?thesis by (simp add: kind_count_sum)
qed



lemma replace_gaps_loop_length:
  "replace_gaps_loop xs acc = Inr r \<Longrightarrow> length r = length acc + length xs"
  by (induction xs arbitrary: acc) (auto simp: msa_append_def split: sum.splits if_splits)

lemma replace_gaps_length: "replace_gaps aln0 = Inr aln \<Longrightarrow> length aln = length aln0"
  using replace_gaps_loop_length[of aln0 "[]" aln] by (simp add: replace_gaps_def)

text \<open>The records of the alignment the worker reads its columns from have one length.\<close>

lemma replace_gaps_loop_rectangular:
  "replace_gaps_loop xs acc = Inr aln \<Longrightarrow>
   \<forall>r\<in>set acc. length (rec_seq r) = get_alignment_length acc \<Longrightarrow>
   \<forall>r\<in>set aln. length (rec_seq r) = get_alignment_length aln"
proof (induction xs arbitrary: acc)
  case Nil
  then show ?case by simp
next
  case (Cons x xs)
  from Cons.prems(1) obtain seq acc' where
    a: "msa_append acc (x\<lparr>rec_seq := seq\<rparr>) = Inr acc'"
    and l: "replace_gaps_loop xs acc' = Inr aln"
    by (auto split: sum.splits)
  from a have acc': "acc' = acc @ [x\<lparr>rec_seq := seq\<rparr>]"
    and ok: "acc = [] \<or> length seq = get_alignment_length acc"
    by (auto simp: msa_append_def split: if_splits)
  have "\<forall>r\<in>set acc'. length (rec_seq r) = get_alignment_length acc'"
    using Cons.prems(2) ok unfolding acc' by (cases acc) (auto simp: get_alignment_length_def)
  from Cons.IH[OF l this] show ?case .
qed

lemma replace_gaps_rectangular:
  "replace_gaps aln0 = Inr aln \<Longrightarrow> r \<in> set aln \<Longrightarrow> length (rec_seq r) = get_alignment_length aln"
  using replace_gaps_loop_rectangular[of aln0 "[]" aln] by (simp add: replace_gaps_def)

lemma length_column: "length (column aln idx) = length aln"
  by (simp add: column_def)

lemma worker_Inr:
  assumes "worker rnd locus aln0 = Inr (l, results, len, bases)"
  obtains aln major where "replace_gaps aln0 = Inr aln"
    and "len = get_alignment_length aln" and "l = locus"
    and "column_loop rnd aln (map rec_id aln0) [0..<len] (init_results aln0, [], None)
         = Inr (results, bases, major)"
  using assms by (auto simp: worker_def Let_def split: sum.splits prod.splits)

lemma worker_column:
  assumes w: "worker rnd locus aln0 = Inr (l, results, len, bases)"
    and r: "replace_gaps aln0 = Inr aln" and p: "p < len"
  shows "\<exists>prev m. pick_major (rnd p) (strip_missing (column aln p)) prev = Inr m
     \<and> (\<forall>base\<in>set (column aln p). \<exists>k. classify (lower base) m = Inr (Some k))
     \<and> (\<forall>k. kind_count results k p = classified m (column aln p) k)
     \<and> map_of bases p = Some (length (strip_missing (column aln p)))"
proof -
  from w obtain aln' major where r': "replace_gaps aln0 = Inr aln'"
    and l: "column_loop rnd aln' (map rec_id aln0) [0..<len] (init_results aln0, [], None)
         = Inr (results, bases, major)"
    by (rule worker_Inr)
  from r r' have [simp]: "aln' = aln" by simp
  from column_loop_at[OF l[simplified]] p show ?thesis
    by (simp add: kind_count_init_results)
qed

section \<open>The random tie-break\<close>

lemma nucleotide_codes_lower: "\<forall>c\<in>set nucleotide_codes. lower c \<in> set iupac"
  by code_simp

lemma spec_alphabet_lower:
  "spec_alphabet c \<Longrightarrow> c \<notin> set ''Nn?'' \<Longrightarrow> c \<noteq> CHR ''-'' \<Longrightarrow> lower c \<in> set iupac"
  unfolding spec_alphabet_def using nucleotide_codes_lower by blast

lemma common_bases_loop_eq:
  "common_bases_loop items mx acc
   = acc @ map (\<lambda>item. lower (fst item))
             (filter (\<lambda>item. snd item = mx \<and> lower (fst item) \<in> set iupac) items)"
  by (induction items mx acc rule: common_bases_loop.induct) (simp_all add: Let_def)

lemma set_most_common: "set (most_common cnt) = set cnt"
  by (simp add: most_common_def)

lemma counter_get_Counter: "counter_get (Counter xs) k = count_list xs k"
proof -
  have "map_of (map (\<lambda>x. (x, count_list xs x)) (remdups xs)) k
        = (if k \<in> set xs then Some (count_list xs k) else None)"
    by (simp add: map_of_map_restrict restrict_map_def)
  then show ?thesis
    by (simp add: counter_get_def Counter_def count_list_0_iff)
qed

lemma count_list_map: "count_list (map f ys) m = length (filter (\<lambda>y. f y = m) ys)"
  by (induction ys) auto

lemma count_of_count:
  "counter_get (Counter (map snd (Counter bases))) m
   = length (filter (\<lambda>x. count_list bases x = m) (remdups bases))"
proof -
  have e: "map snd (Counter bases) = map (count_list bases) (remdups bases)"
    by (simp add: Counter_def comp_def)
  show ?thesis unfolding counter_get_Counter e by (rule count_list_map)
qed

lemma max_count_attained:
  assumes "bases \<noteq> []"
  shows "\<exists>x\<in>set bases. count_list bases x = max_count bases"
proof -
  let ?S = "set (map fst (Counter (map snd (Counter bases))))"
  have S: "?S = (\<lambda>x. count_list bases x) ` set bases"
    by (simp add: Counter_def comp_def image_image)
  have "finite ?S" by simp
  moreover have "?S \<noteq> {}" unfolding S using assms by simp
  ultimately have "Max ?S \<in> ?S" by (rule Max_in)
  then show ?thesis unfolding max_count_def S by auto
qed

lemma distinct_two:
  assumes "distinct ys" "length ys \<noteq> 1" "ys \<noteq> []"
  shows "\<exists>y\<in>set ys. y \<noteq> a"
proof (cases ys)
  case Nil
  with assms show ?thesis by simp
next
  case (Cons y1 rest)
  with assms obtain y2 rest' where r: "rest = y2 # rest'" by (cases rest) auto
  with Cons assms(1) have "y1 \<noteq> y2" by simp
  then show ?thesis using Cons r by auto
qed

lemma tie_has_nucleotide:
  assumes "reaches_tie_break bases"
  shows "\<exists>y\<in>set bases. count_list bases y = max_count bases \<and> y \<noteq> CHR ''-''"
proof -
  let ?F = "filter (\<lambda>x. count_list bases x = max_count bases) (remdups bases)"
  from assms have ne: "bases \<noteq> []" and n1: "length ?F \<noteq> 1"
    by (auto simp: reaches_tie_break_def count_of_count)
  from max_count_attained[OF ne] have "?F \<noteq> []"
    by (auto simp: filter_empty_conv)
  moreover have "distinct ?F" by simp
  ultimately have "\<exists>y\<in>set ?F. y \<noteq> CHR ''-''" using n1 by (intro distinct_two) auto
  then show ?thesis by auto
qed

lemma tie_candidates:
  assumes a: "\<forall>c\<in>set col. spec_alphabet c" and t: "reaches_tie_break (strip_missing col)"
  shows "common_bases_loop (most_common (Counter (strip_missing col))) (max_count (strip_missing col)) [] \<noteq> []"
proof -
  let ?bases = "strip_missing col"
  from tie_has_nucleotide[OF t] obtain y where y: "y \<in> set ?bases"
    and c: "count_list ?bases y = max_count ?bases" and g: "y \<noteq> CHR ''-''" by blast
  from y have "y \<in> set col" and "y \<notin> set ''Nn?''" by (auto simp: strip_missing_def)
  with a g have l: "lower y \<in> set iupac" by (intro spec_alphabet_lower) auto
  from y c have "(y, max_count ?bases) \<in> set (most_common (Counter ?bases))"
    by (auto simp: set_most_common Counter_def)
  with l have "\<exists>item\<in>set (most_common (Counter ?bases)).
                 snd item = max_count ?bases \<and> lower (fst item) \<in> set iupac"
    by (intro bexI[of _ "(y, max_count ?bases)"]) simp_all
  then have "filter (\<lambda>item. snd item = max_count ?bases \<and> lower (fst item) \<in> set iupac)
                 (most_common (Counter ?bases)) \<noteq> []"
    by (simp add: filter_empty_conv)
  then show ?thesis by (simp add: common_bases_loop_eq)
qed

lemma common_bases_loop_iupac: "set (common_bases_loop items mx []) \<subseteq> set iupac"
  by (auto simp: common_bases_loop_eq)

lemma choice_member: "xs \<noteq> [] \<Longrightarrow> \<exists>x\<in>set xs. choice r xs = Inr x"
  by (simp add: choice_def)

lemma pick_major_tie:
  assumes "reaches_tie_break bases"
  shows "pick_major r bases major
         = map_sum id Some (choice r (common_bases_loop (most_common (Counter bases)) (max_count bases) []))"
  using assms
  by (auto simp: pick_major_def reaches_tie_break_def max_count_def Let_def split: sum.splits)

lemma tie_break_pick:
  assumes "\<forall>c\<in>set col. spec_alphabet c" and "reaches_tie_break (strip_missing col)"
  shows "common_bases_loop (most_common (Counter (strip_missing col))) (max_count (strip_missing col)) [] \<noteq> []
       \<and> (\<exists>b\<in>set iupac. pick_major r (strip_missing col) major = Inr (Some b))"
proof -
  let ?cb = "common_bases_loop (most_common (Counter (strip_missing col))) (max_count (strip_missing col)) []"
  have ne: "?cb \<noteq> []" using assms by (rule tie_candidates)
  from choice_member[OF ne, of r] obtain b where b: "b \<in> set ?cb" and c: "choice r ?cb = Inr b" by blast
  from b common_bases_loop_iupac have "b \<in> set iupac" by blast
  moreover have "pick_major r (strip_missing col) major = Inr (Some b)"
    by (simp add: pick_major_tie[OF assms(2)] c)
  ultimately show ?thesis using ne by blast
qed

text \<open>
  C9. For a column over the alphabet of the specification whose considered bases reach
  the random tie-break, the list of candidates (the tied bases that are IUPAC codes, the
  gap left out) is not empty, so \<^verbatim>\<open>choice\<close> does not fail and the major allele is one
  of the IUPAC codes.
\<close>

theorem tie_break_never_fails:
  assumes "\<forall>c\<in>set col. spec_alphabet c" and "reaches_tie_break (strip_missing col)"
  shows "common_bases_loop (most_common (Counter (strip_missing col))) (max_count (strip_missing col)) [] \<noteq> []
       \<and> (\<exists>b\<in>set iupac. pick_major r (strip_missing col) major = Inr (Some b))"
  using assms by (rule tie_break_pick)

theorem tie_break_never_fails_witness:
  "list_all spec_alphabet ''AC-n'' \<and> reaches_tie_break (strip_missing ''AC-n'')
   \<and> common_bases_loop (most_common (Counter (strip_missing ''AC-n''))) (max_count (strip_missing ''AC-n'')) [] \<noteq> []
   \<and> (\<exists>b\<in>set iupac. pick_major 1 (strip_missing ''AC-n'') None = Inr (Some b))"
proof -
  have h0: "list_all spec_alphabet ''AC-n''" by code_simp
  then have h1: "\<forall>c\<in>set ''AC-n''. spec_alphabet c" by (simp only: list_all_iff)
  have h2: "reaches_tie_break (strip_missing ''AC-n'')" by code_simp
  from tie_break_never_fails[OF h1 h2, of 1 None] h0 h2 show ?thesis by blast
qed

section \<open>What each taxon has recorded\<close>

lemma lower_other: "c \<notin> set capitals \<Longrightarrow> lower c = c"
proof -
  assume "c \<notin> set capitals"
  then have "map_of (zip ''ABCDEFGHIJKLMNOPQRSTUVWXYZ'' ''abcdefghijklmnopqrstuvwxyz'') c = None"
    unfolding capitals_def by (subst map_of_eq_None_iff) simp
  then show ?thesis by (simp only: lower_def option.case)
qed

lemma lower_capitals_missing: "\<forall>c\<in>set capitals. (lower c \<in> set ''Nn?'') = (c \<in> set ''Nn?'')"
  by code_simp

lemma lower_missing: "(lower c \<in> set ''Nn?'') = (c \<in> set ''Nn?'')"
proof (cases "c \<in> set capitals")
  case True
  with lower_capitals_missing show ?thesis by blast
next
  case False
  then have "lower c = c" by (rule lower_other)
  then show ?thesis by simp
qed

lemma recorded_append_event:
  assumes "append_event results name ty idx = Inr results'"
  shows "recorded results' name ty idx"
    and "recorded results n k p \<Longrightarrow> recorded results' n k p"
proof -
  from assms obtain ev where ev: "map_of results name = Some ev"
    and r: "results' = AList.update name (append_kind ev ty idx) results"
    by (rule append_event_Inr)
  show "recorded results' name ty idx"
    by (simp add: recorded_def r update_conv' get_kind_append_kind)
  show "recorded results n k p \<Longrightarrow> recorded results' n k p"
    using ev by (auto simp: recorded_def r update_conv' get_kind_append_kind split: option.splits)
qed

lemma classify_loop_recorded_mono:
  "classify_loop idx major name_map ecol results = Inr results' \<Longrightarrow>
   recorded results n k p \<Longrightarrow> recorded results' n k p"
proof (induction ecol arbitrary: results)
  case Nil
  then show ?case by simp
next
  case (Cons e ecol)
  obtain pos base where e: "e = (pos, base)" by (cases e)
  from Cons.prems(1)[unfolded e] obtain ty results1 where
    a: "append_event results (name_map ! pos) ty idx = Inr results1"
    and l: "classify_loop idx major name_map ecol results1 = Inr results'"
    by (rule classify_loop_Cons_Inr)
  from recorded_append_event(2)[OF a Cons.prems(2)] Cons.IH[OF l] show ?case by simp
qed

lemma classify_loop_recorded:
  "classify_loop idx major name_map ecol results = Inr results' \<Longrightarrow>
   (pos, base) \<in> set ecol \<Longrightarrow>
   \<exists>k. classify (lower base) major = Inr (Some k) \<and> recorded results' (name_map ! pos) k idx"
proof (induction ecol arbitrary: results)
  case Nil
  then show ?case by simp
next
  case (Cons e ecol)
  obtain pos1 base1 where e: "e = (pos1, base1)" by (cases e)
  from Cons.prems(1)[unfolded e] obtain ty results1 where
    c: "classify (lower base1) major = Inr (Some ty)"
    and a: "append_event results (name_map ! pos1) ty idx = Inr results1"
    and l: "classify_loop idx major name_map ecol results1 = Inr results'"
    by (rule classify_loop_Cons_Inr)
  show ?case
  proof (cases "(pos, base) = (pos1, base1)")
    case True
    from recorded_append_event(1)[OF a] classify_loop_recorded_mono[OF l]
    have "recorded results' (name_map ! pos1) ty idx" by simp
    with c True show ?thesis by auto
  next
    case False
    with Cons.prems(2) e have "(pos, base) \<in> set ecol" by auto
    from Cons.IH[OF l this] show ?thesis .
  qed
qed

lemma column_loop_recorded_mono:
  "column_loop rnd aln name_map idxs st = Inr st' \<Longrightarrow>
   recorded (fst st) n k p \<Longrightarrow> recorded (fst st') n k p"
proof (induction idxs arbitrary: st)
  case Nil
  then show ?case by simp
next
  case (Cons idx idxs)
  from Cons.prems(1) obtain st1 where s: "column_step rnd aln name_map idx st = Inr st1"
    and l: "column_loop rnd aln name_map idxs st1 = Inr st'"
    by (auto split: sum.splits)
  obtain results bc major where st: "st = (results, bc, major)" by (cases st)
  obtain results1 bc1 major1 where st1: "st1 = (results1, bc1, major1)" by (cases st1)
  note f = column_step_Inr[OF s[unfolded st st1]]
  from classify_loop_recorded_mono[OF f(2)] Cons.prems(2) have "recorded (fst st1) n k p"
    by (simp add: st st1)
  from Cons.IH[OF l this] show ?case .
qed

lemma column_loop_recorded:
  "column_loop rnd aln name_map idxs st = Inr st' \<Longrightarrow> p \<in> set idxs \<Longrightarrow> i < length aln \<Longrightarrow>
   \<exists>prev m k. pick_major (rnd p) (strip_missing (column aln p)) prev = Inr m
      \<and> classify (lower (column aln p ! i)) m = Inr (Some k)
      \<and> recorded (fst st') (name_map ! i) k p"
proof (induction idxs arbitrary: st)
  case Nil
  then show ?case by simp
next
  case (Cons idx idxs)
  from Cons.prems(1) obtain st1 where s: "column_step rnd aln name_map idx st = Inr st1"
    and l: "column_loop rnd aln name_map idxs st1 = Inr st'"
    by (auto split: sum.splits)
  obtain results bc major where st: "st = (results, bc, major)" by (cases st)
  obtain results1 bc1 major1 where st1: "st1 = (results1, bc1, major1)" by (cases st1)
  note f = column_step_Inr[OF s[unfolded st st1]]
  show ?case
  proof (cases "p = idx")
    case True
    have "(i, column aln p ! i) \<in> set (enumerate 0 (column aln idx))"
      using Cons.prems(3) True by (simp add: in_set_enumerate_eq length_column)
    from classify_loop_recorded[OF f(2) this] obtain k where
      c: "classify (lower (column aln p ! i)) major1 = Inr (Some k)"
      and rec: "recorded results1 (name_map ! i) k idx" by blast
    from column_loop_recorded_mono[OF l, of "name_map ! i" k idx] rec
    have "recorded (fst st') (name_map ! i) k p" by (simp add: st1 True)
    with f(1) c True show ?thesis by blast
  next
    case False
    with Cons.prems(2) have "p \<in> set idxs" by simp
    from Cons.IH[OF l this Cons.prems(3)] show ?thesis .
  qed
qed

lemma worker_recorded:
  assumes w: "worker rnd locus aln0 = Inr (l, results, len, bases)"
    and r: "replace_gaps aln0 = Inr aln" and p: "p < len" and i: "i < length aln0"
  shows "\<exists>prev m k. pick_major (rnd p) (strip_missing (column aln p)) prev = Inr m
      \<and> classify (lower (column aln p ! i)) m = Inr (Some k)
      \<and> recorded results (rec_id (aln0 ! i)) k p"
proof -
  from w obtain aln' major where r': "replace_gaps aln0 = Inr aln'"
    and l: "column_loop rnd aln' (map rec_id aln0) [0..<len] (init_results aln0, [], None)
         = Inr (results, bases, major)"
    by (rule worker_Inr)
  from r r' have [simp]: "aln' = aln" by simp
  from i have i': "i < length aln" by (simp add: replace_gaps_length[OF r])
  from column_loop_recorded[OF l[simplified] _ i', of p] p i show ?thesis by simp
qed

lemma classify_missing: "base \<in> set ''Nn?'' \<Longrightarrow> classify (lower base) major = Inr (Some NoneKey)"
  using lower_missing[of base] by (simp add: classify_def)

lemma strip_missing_Nil: "strip_missing col = [] \<Longrightarrow> base \<in> set col \<Longrightarrow> base \<in> set ''Nn?''"
  by (auto simp: strip_missing_def filter_empty_conv)

lemma classified_all_missing:
  assumes "strip_missing col = []"
  shows "classified major col k = (if k = NoneKey then length col else 0)"
proof -
  have "\<forall>base\<in>set col. classify (lower base) major = Inr (Some NoneKey)"
    using strip_missing_Nil[OF assms] classify_missing by blast
  then have "filter (\<lambda>base. classify (lower base) major = Inr (Some k)) col
             = (if k = NoneKey then col else [])"
    by (auto simp: filter_empty_conv filter_id_conv)
  then show ?thesis by (simp add: classified_def)
qed

text \<open>
  C7. When the worker returns and the considered bases of a column (of the alignment
  after the end gaps are rewritten) are empty, the count of considered bases stored for
  the position is 0, every record of the alignment has the position in its list of
  missing data, and no taxon has it under another kind: the counts that go to
  \<open>by_locus\<close> are the number of records for \<open>missing\<close> and 0 for the four others.
\<close>

theorem empty_column_all_missing:
  assumes w: "worker rnd locus aln0 = Inr (l, results, len, bases)"
    and r: "replace_gaps aln0 = Inr aln" and p: "p < len"
    and e: "strip_missing (column aln p) = []"
  shows "map_of bases p = Some 0
       \<and> kind_count results NoneKey p = length aln0
       \<and> kind_count results Majallele p = 0 \<and> kind_count results Substitution p = 0
       \<and> kind_count results Deletion p = 0 \<and> kind_count results Insertion p = 0
       \<and> (\<forall>i<length aln0. recorded results (rec_id (aln0 ! i)) NoneKey p)"
proof -
  from worker_column[OF w r p] obtain m where
    c: "\<forall>k. kind_count results k p = classified m (column aln p) k"
    and b: "map_of bases p = Some (length (strip_missing (column aln p)))"
    by blast
  have rec: "recorded results (rec_id (aln0 ! i)) NoneKey p" if i: "i < length aln0" for i
  proof -
    from worker_recorded[OF w r p i] obtain m' k where
      k: "classify (lower (column aln p ! i)) m' = Inr (Some k)"
      and rr: "recorded results (rec_id (aln0 ! i)) k p" by blast
    from i have "column aln p ! i \<in> set (column aln p)"
      by (simp add: length_column replace_gaps_length[OF r])
    from classify_missing[OF strip_missing_Nil[OF e this], of m'] k have "k = NoneKey" by simp
    with rr show ?thesis by simp
  qed
  from c b rec show ?thesis
    by (simp add: classified_all_missing[OF e] e length_column replace_gaps_length[OF r])
qed

theorem empty_column_all_missing_witness:
  "worker (\<lambda>idx. 0) ''uce-2'' end_gap_alignment
     = Inr (''uce-2'',
            [(''t1'', \<lparr>insertion = [], deletion = [], substitution = [0], majallele = [2], none_key = [1]\<rparr>),
             (''t2'', \<lparr>insertion = [], deletion = [], substitution = [0], majallele = [], none_key = [1, 2]\<rparr>),
             (''t3'', \<lparr>insertion = [], deletion = [], substitution = [0, 2], majallele = [], none_key = [1]\<rparr>)],
            3, [(0, 3), (1, 0), (2, 2)])
   \<and> replace_gaps end_gap_alignment = Inr [taxon ''t1'' ''AnG'', taxon ''t2'' ''AN?'', taxon ''t3'' ''C?T'']
   \<and> strip_missing (column [taxon ''t1'' ''AnG'', taxon ''t2'' ''AN?'', taxon ''t3'' ''C?T''] 1) = []
   \<and> map_of [(0, 3), (1, 0), (2, 2::nat)] (1::nat) = Some 0
   \<and> kind_count
        [(''t1'', \<lparr>insertion = [], deletion = [], substitution = [0], majallele = [2], none_key = [1]\<rparr>),
         (''t2'', \<lparr>insertion = [], deletion = [], substitution = [0], majallele = [], none_key = [1, 2]\<rparr>),
         (''t3'', \<lparr>insertion = [], deletion = [], substitution = [0, 2], majallele = [], none_key = [1]\<rparr>)]
        NoneKey 1 = length end_gap_alignment"
proof -
  have h1: "worker (\<lambda>idx. 0) ''uce-2'' end_gap_alignment
     = Inr (''uce-2'',
            [(''t1'', \<lparr>insertion = [], deletion = [], substitution = [0], majallele = [2], none_key = [1]\<rparr>),
             (''t2'', \<lparr>insertion = [], deletion = [], substitution = [0], majallele = [], none_key = [1, 2]\<rparr>),
             (''t3'', \<lparr>insertion = [], deletion = [], substitution = [0, 2], majallele = [], none_key = [1]\<rparr>)],
            3, [(0, 3), (1, 0), (2, 2)])"
    by code_simp
  have h2: "replace_gaps end_gap_alignment = Inr [taxon ''t1'' ''AnG'', taxon ''t2'' ''AN?'', taxon ''t3'' ''C?T'']"
    by code_simp
  have h3: "(1::nat) < 3" by simp
  have h4: "strip_missing (column [taxon ''t1'' ''AnG'', taxon ''t2'' ''AN?'', taxon ''t3'' ''C?T''] 1) = []"
    by code_simp
  from empty_column_all_missing[OF h1 h2 h3 h4] h1 h2 h4 show ?thesis by blast
qed

section \<open>Columns with a single considered base\<close>

lemma pick_major_single:
  assumes ne: "bases \<noteq> []" and all: "\<forall>c\<in>set bases. c = b"
  shows "pick_major r bases prev = Inr (Some (lower b))"
proof -
  from ne all have s: "set bases = {b}" by (cases bases) auto
  have "length (remdups bases) = card (set bases)" by (rule length_remdups_card_conv)
  with s have l: "length (remdups bases) = 1" by simp
  from ne all have "bases ! 0 = b" by (cases bases) auto
  with ne l show ?thesis by (simp add: pick_major_def)
qed

lemma classify_major_itself:
  "base \<notin> set ''Nn?'' \<Longrightarrow> classify (lower base) (Some (lower base)) = Inr (Some Majallele)"
  using lower_missing[of base] by (simp add: classify_def)

lemma classify_unanimous:
  assumes all: "\<forall>c\<in>set (strip_missing col). c = b" and c: "c \<in> set col"
  shows "classify (lower c) (Some (lower b))
         = Inr (Some (if c \<in> set ''Nn?'' then NoneKey else Majallele))"
proof (cases "c \<in> set ''Nn?''")
  case True
  then show ?thesis by (simp only: classify_missing if_True)
next
  case False
  with c have "c \<in> set (strip_missing col)" by (simp add: strip_missing_def)
  with all have cb: "c = b" by blast
  from classify_major_itself[OF False] show ?thesis
    unfolding cb[symmetric] using False by (simp only: if_False)
qed

lemma classified_unanimous:
  assumes all: "\<forall>c\<in>set (strip_missing col). c = b"
  shows "classified (Some (lower b)) col Majallele = length (strip_missing col)"
    and "classified (Some (lower b)) col Substitution = 0"
    and "classified (Some (lower b)) col Insertion = 0"
    and "classified (Some (lower b)) col Deletion = 0"
proof -
  have f: "filter (\<lambda>base. classify (lower base) (Some (lower b)) = Inr (Some k)) col
        = filter (\<lambda>c. (if c \<in> set ''Nn?'' then NoneKey else Majallele) = k) col" for k
    by (rule filter_cong) (simp_all add: classify_unanimous[OF all])
  show "classified (Some (lower b)) col Majallele = length (strip_missing col)"
    unfolding classified_def f strip_missing_def
    by (rule arg_cong[where f = length], rule filter_cong) auto
  show "classified (Some (lower b)) col Substitution = 0"
    unfolding classified_def f by (simp add: filter_empty_conv)
  show "classified (Some (lower b)) col Insertion = 0"
    unfolding classified_def f by (simp add: filter_empty_conv)
  show "classified (Some (lower b)) col Deletion = 0"
    unfolding classified_def f by (simp add: filter_empty_conv)
qed

text \<open>
  C8. When the worker returns and all considered bases of a column are one and the same
  character \<open>b\<close>, the major allele is that base (held in lower case, as every base is
  when it is compared), every record whose entry is not missing has the position under
  \<open>majallele\<close>, and the counts of substitutions, insertions and deletions at the position
  are 0. The proof does not need \<open>b\<close> to differ from the gap.
\<close>

theorem unanimous_column_major_allele:
  assumes w: "worker rnd locus aln0 = Inr (l, results, len, bases)"
    and r: "replace_gaps aln0 = Inr aln" and p: "p < len"
    and ne: "strip_missing (column aln p) \<noteq> []"
    and all: "\<forall>c\<in>set (strip_missing (column aln p)). c = b"
  shows "pick_major (rnd p) (strip_missing (column aln p)) prev = Inr (Some (lower b))
       \<and> kind_count results Majallele p = length (strip_missing (column aln p))
       \<and> kind_count results Substitution p = 0
       \<and> kind_count results Insertion p = 0
       \<and> kind_count results Deletion p = 0
       \<and> (\<forall>i<length aln0.
             recorded results (rec_id (aln0 ! i))
               (if column aln p ! i \<in> set ''Nn?'' then NoneKey else Majallele) p)"
proof -
  note pm = pick_major_single[OF ne all]
  from worker_column[OF w r p] obtain prev' m where
    m: "pick_major (rnd p) (strip_missing (column aln p)) prev' = Inr m"
    and c: "\<forall>k. kind_count results k p = classified m (column aln p) k"
    by blast
  from m pm[of "rnd p" prev'] have m_eq: "m = Some (lower b)" by simp
  have rec: "recorded results (rec_id (aln0 ! i))
               (if column aln p ! i \<in> set ''Nn?'' then NoneKey else Majallele) p"
    if i: "i < length aln0" for i
  proof -
    from worker_recorded[OF w r p i] obtain prev2 m2 k where
      m2: "pick_major (rnd p) (strip_missing (column aln p)) prev2 = Inr m2"
      and k: "classify (lower (column aln p ! i)) m2 = Inr (Some k)"
      and rr: "recorded results (rec_id (aln0 ! i)) k p" by blast
    from m2 pm[of "rnd p" prev2] have "m2 = Some (lower b)" by simp
    moreover from i have "column aln p ! i \<in> set (column aln p)"
      by (simp add: length_column replace_gaps_length[OF r])
    ultimately have "k = (if column aln p ! i \<in> set ''Nn?'' then NoneKey else Majallele)"
      using k classify_unanimous[OF all] by simp
    with rr show ?thesis by simp
  qed
  from pm c rec show ?thesis
    by (simp add: m_eq classified_unanimous[OF all])
qed

theorem unanimous_column_major_allele_witness:
  "worker (\<lambda>idx. 0) ''uce-1'' example_alignment
     = Inr (''uce-1'',
            [(''t1'', \<lparr>insertion = [], deletion = [], substitution = [2, 3], majallele = [0, 1], none_key = []\<rparr>),
             (''t2'', \<lparr>insertion = [], deletion = [], substitution = [2, 3], majallele = [0, 1], none_key = []\<rparr>),
             (''t3'', \<lparr>insertion = [], deletion = [2], substitution = [3], majallele = [0, 1], none_key = []\<rparr>)],
            4, [(0, 3), (1, 3), (2, 3), (3, 3)])
   \<and> replace_gaps example_alignment = Inr example_alignment
   \<and> strip_missing (column example_alignment 0) = ''AAA''
   \<and> pick_major 0 (strip_missing (column example_alignment 0)) None = Inr (Some (lower CHR ''A''))
   \<and> kind_count
        [(''t1'', \<lparr>insertion = [], deletion = [], substitution = [2, 3], majallele = [0, 1], none_key = []\<rparr>),
         (''t2'', \<lparr>insertion = [], deletion = [], substitution = [2, 3], majallele = [0, 1], none_key = []\<rparr>),
         (''t3'', \<lparr>insertion = [], deletion = [2], substitution = [3], majallele = [0, 1], none_key = []\<rparr>)]
        Majallele 0 = length (strip_missing (column example_alignment 0))"
proof -
  have h1: "worker (\<lambda>idx. 0) ''uce-1'' example_alignment
     = Inr (''uce-1'',
            [(''t1'', \<lparr>insertion = [], deletion = [], substitution = [2, 3], majallele = [0, 1], none_key = []\<rparr>),
             (''t2'', \<lparr>insertion = [], deletion = [], substitution = [2, 3], majallele = [0, 1], none_key = []\<rparr>),
             (''t3'', \<lparr>insertion = [], deletion = [2], substitution = [3], majallele = [0, 1], none_key = []\<rparr>)],
            4, [(0, 3), (1, 3), (2, 3), (3, 3)])"
    by code_simp
  have h2: "replace_gaps example_alignment = Inr example_alignment" by code_simp
  have h3: "(0::nat) < 4" by simp
  have e: "strip_missing (column example_alignment 0) = ''AAA''" by code_simp
  have h4: "strip_missing (column example_alignment 0) \<noteq> []" by (simp add: e)
  have h5: "\<forall>c\<in>set (strip_missing (column example_alignment 0)). c = CHR ''A''" by (simp add: e)
  from unanimous_column_major_allele[OF h1 h2 h3 h4 h5, of None] h1 h2 e show ?thesis by simp
qed

section \<open>Every base is classified once\<close>
















section \<open>The smilogram series\<close>










text \<open>
  Two loci through the worker, the tables and both queries: distance -2 has no
  substitution and is absent from the first series.
\<close>

lemma smilogram_of_two_loci:
  "map_sum id (\<lambda>db. (smilogram_rows (by_locus db), missing_rows (by_locus_missing db)))
     (main_tables (\<lambda>locus idx. 0)
        [(''uce-1'', example_alignment),
         (''uce-2'', [taxon ''t1'' ''ag'', taxon ''t2'' ''cg'', taxon ''t3'' ''c?''])])
   = Inr ([(1, 6, Some (1 / 6), - 1), (2, 5, Some (2 / 5), 0), (3, 3, Some 1, 1)],
          [(3, 0, Some 0, - 2), (6, 0, Some 0, - 1), (5, 1, Some (1 / 6), 0), (3, 0, Some 0, 1)])"
  by code_simp

section \<open>Adding the missing-data designators\<close>














end
